theory Spec2Isabelle
  imports Main "HOL-Library.Sublist" "HOL-Library.Word"
begin

section \<open>The address listing script \<^verbatim>\<open>utils/addresses.py\<close>\<close>

text \<open>
  The script opens a fixed path, parses the file with \<^verbatim>\<open>json.load\<close>, walks
  \<^verbatim>\<open>d["transactions"]\<close> and prints one line for every contract name it has not
  seen before. The embedding below follows the script statement by statement. Python
  raises where HOL would return an unspecified value, so every subscript, iteration and
  method call returns a sum whose left injection is the exception raised.
\<close>

subsection \<open>Python objects built by the JSON parser\<close>

text \<open>
  \<^verbatim>\<open>json.load\<close> yields \<^verbatim>\<open>None\<close>, \<^verbatim>\<open>bool\<close>, \<^verbatim>\<open>int\<close>, \<^verbatim>\<open>float\<close>,
  \<^verbatim>\<open>str\<close>, \<^verbatim>\<open>list\<close> and \<^verbatim>\<open>dict\<close> objects. A float is kept as its binary64
  bit pattern. A dict is its list of items in insertion order; Python keeps its keys
  distinct, and lookup through \<open>map_of\<close> reads the first item of a key. One \<open>char\<close>
  of a \<open>string\<close> stands for one code point of a Python \<^verbatim>\<open>str\<close>.
\<close>

datatype json =
    JNull
  | JBool bool
  | JInt int
  | JFloat "64 word"
  | JString string
  | JArray "json list"
  | JObject "(string \<times> json) list"

datatype py_error =
    FileNotFoundError
  | JSONDecodeError
  | KeyError string
  | TypeError
  | AttributeError

subsection \<open>The operations the script applies to these objects\<close>

text \<open>
  \<^verbatim>\<open>x[key]\<close> with a string key: a dict looks the key up and raises
  \<^verbatim>\<open>KeyError\<close> when it is absent; a list and a str accept integer indices only, and
  the other objects are not subscriptable, so all of them raise \<^verbatim>\<open>TypeError\<close>.
\<close>

fun getitem :: "json \<Rightarrow> string \<Rightarrow> py_error + json" where
  "getitem (JObject items) key =
     (case map_of items key of None \<Rightarrow> Inl (KeyError key) | Some v \<Rightarrow> Inr v)"
| "getitem _ key = Inl TypeError"

text \<open>
  \<^verbatim>\<open>for k in x\<close>: a list yields its elements, a dict its keys, a str its
  characters as one-character strings; the other objects are not iterable. The loop
  never changes the object it walks, so the elements are fixed when the loop starts.
\<close>

fun py_iter :: "json \<Rightarrow> py_error + json list" where
  "py_iter (JArray xs) = Inr xs"
| "py_iter (JObject items) = Inr (map (\<lambda>kv. JString (fst kv)) items)"
| "py_iter (JString s) = Inr (map (\<lambda>c. JString [c]) s)"
| "py_iter _ = Inl TypeError"

text \<open>\<^verbatim>\<open>str.ljust(width)\<close>: pad with spaces on the right up to the width; a string
  that is already as long is returned unchanged.\<close>

definition ljust :: "string \<Rightarrow> nat \<Rightarrow> string" where
  "ljust s width = s @ replicate (width - length s) CHR '' ''"

text \<open>\<^verbatim>\<open>x.ljust(width)\<close> as an attribute lookup on any object: only a str has
  the method.\<close>

fun call_ljust :: "json \<Rightarrow> nat \<Rightarrow> py_error + string" where
  "call_ljust (JString s) width = Inr (ljust s width)"
| "call_ljust _ width = Inl AttributeError"

text \<open>
  \<^verbatim>\<open>print(a, b)\<close> writes \<^verbatim>\<open>str(a)\<close>, a space, \<^verbatim>\<open>str(b)\<close> and a newline.
  \<^verbatim>\<open>str\<close> of a str is the string itself. For every other object it is the object's
  \<^verbatim>\<open>repr\<close>, which belongs to the Python runtime and not to this repository: it is
  the parameter \<open>repr\<close> of the model, and every theorem holds whatever it is.
\<close>

definition py_str :: "(json \<Rightarrow> string) \<Rightarrow> json \<Rightarrow> string" where
  "py_str repr v = (case v of JString s \<Rightarrow> s | _ \<Rightarrow> repr v)"

definition py_print :: "(json \<Rightarrow> string) \<Rightarrow> string \<Rightarrow> json \<Rightarrow> string" where
  "py_print repr a b = a @ '' '' @ py_str repr b @ [CHR 0x0A]"

subsection \<open>The script\<close>

text \<open>The input path of the script.\<close>

definition P :: string where
  "P = ''/Users/shafu/bet-makers/broadcast/Deploy.chilliz.s.sol/88882/run-latest.json''"

text \<open>
  The state the loop changes: the list \<^verbatim>\<open>contractNames\<close> and standard output, kept
  as the list of the texts written, one for each call of \<^verbatim>\<open>print\<close>.
\<close>

record state =
  contractNames :: "json list"
  stdout :: "string list"

definition init :: state where
  "init = \<lparr>contractNames = [], stdout = []\<rparr>"

text \<open>
  The body of the loop for one element \<open>k\<close>. The arguments of \<^verbatim>\<open>print\<close> are
  evaluated from left to right, so \<^verbatim>\<open>contractName.ljust(12)\<close> comes before
  \<^verbatim>\<open>k["contractAddress"]\<close>, and both come before anything is written. An exception
  therefore leaves the state as it was before the element.
\<close>

definition body :: "(json \<Rightarrow> string) \<Rightarrow> json \<Rightarrow> state \<Rightarrow> py_error + state" where
  "body repr k st =
     (case getitem k ''contractName'' of
        Inl e \<Rightarrow> Inl e
      | Inr contractName \<Rightarrow>
          if contractName \<notin> set (contractNames st) then
            (case call_ljust contractName 12 of
               Inl e \<Rightarrow> Inl e
             | Inr padded \<Rightarrow>
                 (case getitem k ''contractAddress'' of
                    Inl e \<Rightarrow> Inl e
                  | Inr address \<Rightarrow>
                      Inr (st\<lparr>stdout := stdout st @ [py_print repr padded address],
                              contractNames := contractNames st @ [contractName]\<rparr>)))
          else Inr st)"

text \<open>The loop: the elements in order, stopping at the first exception. The result is
  the exception, if any, and the state reached.\<close>

fun for_loop :: "(json \<Rightarrow> string) \<Rightarrow> json list \<Rightarrow> state \<Rightarrow> py_error option \<times> state" where
  "for_loop repr [] st = (None, st)"
| "for_loop repr (k # ks) st =
     (case body repr k st of
        Inl e \<Rightarrow> (Some e, st)
      | Inr st' \<Rightarrow> for_loop repr ks st')"

text \<open>The script from the parsed document \<open>d\<close> on: the exception that ends it, if
  any, and what it has written to standard output.\<close>

definition run :: "(json \<Rightarrow> string) \<Rightarrow> json \<Rightarrow> py_error option \<times> string list" where
  "run repr d =
     (case getitem d ''transactions'' of
        Inl e \<Rightarrow> (Some e, [])
      | Inr transactions \<Rightarrow>
          (case py_iter transactions of
             Inl e \<Rightarrow> (Some e, [])
           | Inr ks \<Rightarrow>
               (case for_loop repr ks init of (r, st) \<Rightarrow> (r, stdout st))))"

text \<open>
  The whole script. The file system maps a path to the text of the file there, if there
  is one; \<^verbatim>\<open>open\<close> raises \<^verbatim>\<open>FileNotFoundError\<close> when there is none. The parser
  \<^verbatim>\<open>json.load\<close> is the standard library's: a parameter that returns the document,
  or nothing when the text is not JSON.
\<close>

definition py_open :: "(string \<Rightarrow> string option) \<Rightarrow> string \<Rightarrow> py_error + string" where
  "py_open fs path = (case fs path of None \<Rightarrow> Inl FileNotFoundError | Some f \<Rightarrow> Inr f)"

definition script ::
  "(string \<Rightarrow> json option) \<Rightarrow> (json \<Rightarrow> string) \<Rightarrow> (string \<Rightarrow> string option)
     \<Rightarrow> py_error option \<times> string list" where
  "script json_load repr fs =
     (case py_open fs P of
        Inl e \<Rightarrow> (Some e, [])
      | Inr f \<Rightarrow>
          (case json_load f of
             None \<Rightarrow> (Some JSONDecodeError, [])
           | Some d \<Rightarrow> run repr d))"

text \<open>A rendering of the three constants, for the closed examples below; they print
  strings only, so it is never consulted on anything else.\<close>

fun repr_const :: "json \<Rightarrow> string" where
  "repr_const JNull = ''None''"
| "repr_const (JBool True) = ''True''"
| "repr_const (JBool False) = ''False''"
| "repr_const _ = []"

subsection \<open>Notions the statements below use\<close>

abbreviation name_of :: "json \<Rightarrow> py_error + json" where
  "name_of k \<equiv> getitem k ''contractName''"

abbreviation address_of :: "json \<Rightarrow> py_error + json" where
  "address_of k \<equiv> getitem k ''contractAddress''"

text \<open>An object lacks a key when it is a dict with no item under the key: the
  subscript raises \<^verbatim>\<open>KeyError\<close> with that key.\<close>

definition lacks :: "json \<Rightarrow> string \<Rightarrow> bool" where
  "lacks x key \<longleftrightarrow> getitem x key = Inl (KeyError key)"

text \<open>The distinct elements of a list in the order of their first appearance: the
  elements at the indices where they do not occur before.\<close>

definition first_appearance :: "'a list \<Rightarrow> 'a list" where
  "first_appearance xs =
     map (\<lambda>i. xs ! i) (filter (\<lambda>i. xs ! i \<notin> set (take i xs)) [0..<length xs])"

text \<open>The number of distinct names among the records before index \<open>i\<close>.\<close>

definition names_before :: "json list \<Rightarrow> nat \<Rightarrow> nat" where
  "names_before ks i = card (set (map name_of (take i ks)))"

subsection \<open>Example documents\<close>

text \<open>The example of the specification: two records named \<open>Token\<close> around one
  named \<open>Vault\<close>, and the two lines the script prints for them.\<close>

definition token_aa :: json where
  "token_aa = JObject [(''contractName'', JString ''Token''),
                       (''contractAddress'', JString ''0xAA'')]"

definition vault_bb :: json where
  "vault_bb = JObject [(''contractName'', JString ''Vault''),
                       (''contractAddress'', JString ''0xBB'')]"

definition token_cc :: json where
  "token_cc = JObject [(''contractName'', JString ''Token''),
                       (''contractAddress'', JString ''0xCC'')]"

definition example_records :: "json list" where
  "example_records = [token_aa, vault_bb, token_cc]"

definition example_doc :: json where
  "example_doc = JObject [(''transactions'', JArray example_records)]"

definition example_out :: "string list" where
  "example_out = [''Token        0xAA'' @ [CHR 0x0A], ''Vault        0xBB'' @ [CHR 0x0A]]"

text \<open>The same records with \<open>Vault\<close> first: the order of first appearance is not
  the alphabetical one. And a document with no record.\<close>

definition unsorted_records :: "json list" where
  "unsorted_records = [vault_bb, token_aa, token_cc]"

definition unsorted_doc :: json where
  "unsorted_doc = JObject [(''transactions'', JArray unsorted_records)]"

definition unsorted_out :: "string list" where
  "unsorted_out = [''Vault        0xBB'' @ [CHR 0x0A], ''Token        0xAA'' @ [CHR 0x0A]]"

definition empty_doc :: json where
  "empty_doc = JObject [(''transactions'', JArray [])]"

text \<open>A record whose name is longer than the field of twelve characters.\<close>

definition factory_dd :: json where
  "factory_dd = JObject [(''contractName'', JString ''BetMakersFactory''),
                         (''contractAddress'', JString ''0xDD'')]"

definition factory_doc :: json where
  "factory_doc = JObject [(''transactions'', JArray [factory_dd])]"

text \<open>The example again, with further keys in the first record and at the top level,
  and the two keys of the first record in the other order.\<close>

definition token_aa_extra :: json where
  "token_aa_extra = JObject [(''hash'', JString ''0x01''),
                             (''transactionType'', JString ''CREATE''),
                             (''contractAddress'', JString ''0xAA''),
                             (''contractName'', JString ''Token'')]"

definition extra_records :: "json list" where
  "extra_records = [token_aa_extra, vault_bb, token_cc]"

definition extra_doc :: json where
  "extra_doc = JObject [(''chain'', JInt 88882),
                        (''transactions'', JArray extra_records),
                        (''timestamp'', JInt 1700000000)]"

text \<open>Documents with a record that has no address: one whose name is new, followed by
  a further record, and one that repeats the name of an earlier record. Then the first
  two records of the example alone, a document without \<^verbatim>\<open>transactions\<close>, and the
  state of the loop after the records named \<open>Token\<close> and \<open>Vault\<close>.\<close>

definition pool_bare :: json where
  "pool_bare = JObject [(''contractName'', JString ''Pool'')]"

definition oracle_ee :: json where
  "oracle_ee = JObject [(''contractName'', JString ''Oracle''),
                        (''contractAddress'', JString ''0xEE'')]"

definition failing_records :: "json list" where
  "failing_records = [token_aa, vault_bb, pool_bare, oracle_ee]"

definition failing_doc :: json where
  "failing_doc = JObject [(''transactions'', JArray failing_records)]"

definition token_bare :: json where
  "token_bare = JObject [(''contractName'', JString ''Token'')]"

definition repeat_records :: "json list" where
  "repeat_records = [token_aa, token_bare, vault_bb]"

definition repeat_doc :: json where
  "repeat_doc = JObject [(''transactions'', JArray repeat_records)]"

definition pair_doc :: json where
  "pair_doc = JObject [(''transactions'', JArray [token_aa, vault_bb])]"

definition chain_doc :: json where
  "chain_doc = JObject [(''chain'', JInt 88882)]"

definition token_vault_state :: state where
  "token_vault_state = \<lparr>contractNames = [JString ''Token'', JString ''Vault''], stdout = example_out\<rparr>"

section \<open>Properties of the loop\<close>

lemma for_loop_append:
  "for_loop repr (xs @ ys) st =
     (case for_loop repr xs st of
        (None, st') \<Rightarrow> for_loop repr ys st'
      | (Some e, st') \<Rightarrow> (Some e, st'))"
  by (induction xs arbitrary: st) (auto split: sum.splits)

subsection \<open>First appearances\<close>

lemma first_appearance_Nil: "first_appearance [] = []"
  by (simp add: first_appearance_def)

lemma first_appearance_snoc:
  "first_appearance (xs @ [x]) =
     (if x \<in> set xs then first_appearance xs else first_appearance xs @ [x])"
proof -
  have u: "[0..<length (xs @ [x])] = [0..<length xs] @ [length xs]"
    by simp
  have f: "filter (\<lambda>i. (xs @ [x]) ! i \<notin> set (take i (xs @ [x]))) [0..<length xs]
         = filter (\<lambda>i. xs ! i \<notin> set (take i xs)) [0..<length xs]"
    by (rule filter_cong) (auto simp: nth_append)
  have l: "filter (\<lambda>i. (xs @ [x]) ! i \<notin> set (take i (xs @ [x]))) [length xs]
         = (if x \<in> set xs then [] else [length xs])"
    by simp
  have m: "map (\<lambda>i. (xs @ [x]) ! i) (filter (\<lambda>i. xs ! i \<notin> set (take i xs)) [0..<length xs])
         = map (\<lambda>i. xs ! i) (filter (\<lambda>i. xs ! i \<notin> set (take i xs)) [0..<length xs])"
    by (rule map_cong) (auto simp: nth_append)
  show ?thesis
    unfolding first_appearance_def u filter_append f l map_append m
    by simp
qed

lemma set_first_appearance: "set (first_appearance xs) = set xs"
  by (induction xs rule: rev_induct) (auto simp: first_appearance_Nil first_appearance_snoc)

lemma distinct_first_appearance: "distinct (first_appearance xs)"
  by (induction xs rule: rev_induct)
     (auto simp: first_appearance_Nil first_appearance_snoc set_first_appearance)

lemma length_first_appearance: "length (first_appearance xs) = card (set xs)"
  using distinct_card [OF distinct_first_appearance, of xs]
  by (simp add: set_first_appearance)

subsection \<open>The loop body and the names seen\<close>

lemma call_ljust_Inr: "call_ljust v w = Inr p \<Longrightarrow> \<exists>n. v = JString n \<and> p = ljust n w"
  by (cases v) auto

lemma body_skip:
  "name_of k = Inr v \<Longrightarrow> v \<in> set (contractNames st) \<Longrightarrow> body repr k st = Inr st"
  by (simp add: body_def)

lemma body_print:
  "name_of k = Inr (JString n) \<Longrightarrow> JString n \<notin> set (contractNames st) \<Longrightarrow>
   address_of k = Inr a \<Longrightarrow>
   body repr k st = Inr (st\<lparr>stdout := stdout st @ [py_print repr (ljust n 12) a],
                            contractNames := contractNames st @ [JString n]\<rparr>)"
  by (simp add: body_def)

lemma body_Inr:
  assumes "body repr k st = Inr st'"
  shows "(\<exists>v. name_of k = Inr v \<and> v \<in> set (contractNames st) \<and> st' = st) \<or>
         (\<exists>n a. name_of k = Inr (JString n) \<and> JString n \<notin> set (contractNames st) \<and>
                address_of k = Inr a \<and>
                st' = st\<lparr>stdout := stdout st @ [py_print repr (ljust n 12) a],
                          contractNames := contractNames st @ [JString n]\<rparr>)"
  using assms unfolding body_def
  by (auto split: sum.splits if_splits dest!: call_ljust_Inr)

lemma for_loop_snoc:
  "for_loop repr (xs @ [k]) st = (None, st') \<longleftrightarrow>
     (\<exists>st0. for_loop repr xs st = (None, st0) \<and> body repr k st0 = Inr st')"
  by (auto simp: for_loop_append split: prod.splits option.splits sum.splits)

lemma for_loop_seen:
  assumes "map Inr (contractNames st) = first_appearance (map name_of ks)"
  shows "v \<in> set (contractNames st) \<longleftrightarrow> Inr v \<in> set (map name_of ks)"
proof -
  have "set (map Inr (contractNames st)) = set (map name_of ks)"
    using assms by (simp add: set_first_appearance)
  moreover have "v \<in> set (contractNames st) \<longleftrightarrow> (Inr v :: py_error + json) \<in> set (map Inr (contractNames st))"
    by auto
  ultimately show ?thesis by simp
qed

lemma for_loop_invariant:
  "for_loop repr ks init = (None, st) \<Longrightarrow>
     map Inr (contractNames st) = first_appearance (map name_of ks) \<and>
     length (stdout st) = length (contractNames st)"
proof (induction ks arbitrary: st rule: rev_induct)
  case Nil
  then show ?case by (auto simp: init_def first_appearance_Nil)
next
  case (snoc k ks)
  from snoc.prems obtain st0 where
    l: "for_loop repr ks init = (None, st0)" and b: "body repr k st0 = Inr st"
    by (auto simp: for_loop_snoc)
  from snoc.IH [OF l] have
    n: "map Inr (contractNames st0) = first_appearance (map name_of ks)"
    and o: "length (stdout st0) = length (contractNames st0)"
    by simp_all
  note mem = for_loop_seen [OF n]
  from body_Inr [OF b] show ?case
  proof (elim disjE exE conjE)
    fix v assume "name_of k = Inr v" "v \<in> set (contractNames st0)" "st = st0"
    then show ?thesis using n o mem [of v] by (simp add: first_appearance_snoc)
  next
    fix n' a assume "name_of k = Inr (JString n')" "JString n' \<notin> set (contractNames st0)"
      "address_of k = Inr a"
      "st = st0\<lparr>stdout := stdout st0 @ [py_print repr (ljust n' 12) a],
                          contractNames := contractNames st0 @ [JString n']\<rparr>"
    then show ?thesis using n o mem [of "JString n'"] by (simp add: first_appearance_snoc)
  qed
qed

subsection \<open>What the loop writes\<close>

lemma in_map_take:
  assumes "i \<le> length ks"
  shows "x \<in> set (map f (take i ks)) \<longleftrightarrow> (\<exists>j<i. f (ks ! j) = x)"
proof -
  have "x \<in> set (map f (take i ks)) \<longleftrightarrow> (\<exists>j<length (take i ks). map f (take i ks) ! j = x)"
    unfolding in_set_conv_nth by simp
  also have "\<dots> \<longleftrightarrow> (\<exists>j<i. f (ks ! j) = x)"
    using assms by (simp add: min_absorb2 cong: conj_cong)
  finally show ?thesis .
qed

lemma body_grows:
  "body repr k st = Inr st' \<Longrightarrow>
     prefix (stdout st) (stdout st') \<and> prefix (contractNames st) (contractNames st')"
  by (drule body_Inr) auto

lemma for_loop_grows:
  "for_loop repr ks st = (r, st') \<Longrightarrow>
     prefix (stdout st) (stdout st') \<and> prefix (contractNames st) (contractNames st')"
proof (induction ks arbitrary: st)
  case Nil
  then show ?case by simp
next
  case (Cons k ks)
  show ?case
  proof (cases "body repr k st")
    case (Inl e)
    with Cons.prems show ?thesis by simp
  next
    case (Inr st1)
    with Cons.prems have "for_loop repr ks st1 = (r, st')" by simp
    from Cons.IH [OF this] body_grows [OF Inr] show ?thesis
      by (auto intro: prefix_order.trans)
  qed
qed

lemma for_loop_take:
  assumes "for_loop repr ks st = (None, st')"
  shows "\<exists>st1. for_loop repr (take i ks) st = (None, st1) \<and> for_loop repr (drop i ks) st1 = (None, st')"
proof -
  have "for_loop repr (take i ks @ drop i ks) st = (None, st')"
    using assms by simp
  then show ?thesis
    unfolding for_loop_append by (auto split: prod.splits option.splits)
qed

lemma for_loop_line_count:
  assumes "for_loop repr ks init = (None, st)"
  shows "length (stdout st) = card (set (map name_of ks))"
  using for_loop_invariant [OF assms] length_first_appearance [of "map name_of ks"]
  by (metis length_map)

lemma prefix_nth: "prefix xs ys \<Longrightarrow> i < length xs \<Longrightarrow> ys ! i = xs ! i"
  by (auto simp: prefix_def nth_append)

lemma for_loop_printed_at:
  assumes run: "for_loop repr ks init = (None, st)"
    and i: "i < length ks"
    and n: "name_of (ks ! i) = Inr (JString n)"
    and first: "Inr (JString n) \<notin> set (map name_of (take i ks))"
  shows "\<exists>a. address_of (ks ! i) = Inr a \<and> names_before ks i < length (stdout st) \<and>
             stdout st ! names_before ks i = py_print repr (ljust n 12) a"
proof -
  from for_loop_take [OF run, of i] obtain st1 where
    l1: "for_loop repr (take i ks) init = (None, st1)" and
    l2: "for_loop repr (drop i ks) st1 = (None, st)"
    by blast
  have d: "drop i ks = ks ! i # drop (Suc i) ks"
    using i by (simp add: Cons_nth_drop_Suc)
  from l2 obtain st2 where
    b: "body repr (ks ! i) st1 = Inr st2" and l3: "for_loop repr (drop (Suc i) ks) st2 = (None, st)"
    unfolding d by (auto split: sum.splits)
  have len: "length (stdout st1) = names_before ks i"
    using for_loop_line_count [OF l1] by (simp add: names_before_def)
  have new: "JString n \<notin> set (contractNames st1)"
    using for_loop_invariant [OF l1] first for_loop_seen by blast
  from body_Inr [OF b] n new obtain a where
    a: "address_of (ks ! i) = Inr a" and
    st2: "stdout st2 = stdout st1 @ [py_print repr (ljust n 12) a]"
    by auto
  from for_loop_grows [OF l3] have p: "prefix (stdout st2) (stdout st)"
    by simp
  have lt: "names_before ks i < length (stdout st2)"
    using st2 len by simp
  then have "names_before ks i < length (stdout st)"
    using p by (metis prefix_length_le less_le_trans)
  moreover have "stdout st ! names_before ks i = py_print repr (ljust n 12) a"
    using prefix_nth [OF p lt] st2 len by (simp add: nth_append)
  ultimately show ?thesis using a by blast
qed

lemma run_array:
  "getitem d ''transactions'' = Inr (JArray ks) \<Longrightarrow>
     run repr d = (case for_loop repr ks init of (r, st) \<Rightarrow> (r, stdout st))"
  by (simp add: run_def)

lemma body_well_formed:
  "name_of k = Inr (JString n) \<Longrightarrow> address_of k = Inr a \<Longrightarrow> \<exists>st'. body repr k st = Inr st'"
  by (simp add: body_def)

lemma for_loop_well_formed:
  "\<forall>k\<in>set ks. \<exists>n a. name_of k = Inr (JString n) \<and> address_of k = Inr a \<Longrightarrow>
     \<exists>st'. for_loop repr ks st = (None, st')"
proof (induction ks arbitrary: st)
  case Nil
  then show ?case by simp
next
  case (Cons k ks)
  from Cons.prems obtain n a where "name_of k = Inr (JString n)" "address_of k = Inr a"
    by auto
  from body_well_formed [OF this] obtain st1 where b: "body repr k st = Inr st1"
    by blast
  have "\<forall>k\<in>set ks. \<exists>n a. name_of k = Inr (JString n) \<and> address_of k = Inr a"
    using Cons.prems by simp
  from Cons.IH [OF this, of st1] show ?case
    using b by simp
qed

lemma for_loop_lines:
  "for_loop repr ks st = (r, st') \<Longrightarrow> l \<in> set (stdout st') \<Longrightarrow>
     l \<in> set (stdout st) \<or>
     (\<exists>k\<in>set ks. \<exists>n a. name_of k = Inr (JString n) \<and> address_of k = Inr a \<and>
                      l = py_print repr (ljust n 12) a)"
proof (induction ks arbitrary: st)
  case Nil
  then show ?case by simp
next
  case (Cons k ks)
  show ?case
  proof (cases "body repr k st")
    case (Inl e)
    with Cons.prems show ?thesis by simp
  next
    case (Inr st1)
    with Cons.prems have "for_loop repr ks st1 = (r, st')" by simp
    from Cons.IH [OF this Cons.prems(2)] body_Inr [OF Inr] show ?thesis
      by auto
  qed
qed

text \<open>
  \<^verbatim>\<open>contractNames\<close> only ever holds strings: a name that is not a string is not in
  the list, so the script calls \<^verbatim>\<open>ljust\<close> on it and ends with
  \<^verbatim>\<open>AttributeError\<close> before the name is appended. The membership test of the loop
  therefore compares the name with strings only, where Python's \<^verbatim>\<open>==\<close> and the
  equality of the model agree.
\<close>

lemma for_loop_strings:
  "for_loop repr ks st = (r, st') \<Longrightarrow> \<forall>v\<in>set (contractNames st). \<exists>s. v = JString s \<Longrightarrow>
     \<forall>v\<in>set (contractNames st'). \<exists>s. v = JString s"
proof (induction ks arbitrary: st)
  case Nil
  then show ?case by simp
next
  case (Cons k ks)
  show ?case
  proof (cases "body repr k st")
    case (Inl e)
    with Cons.prems show ?thesis by simp
  next
    case (Inr st1)
    with Cons.prems have l: "for_loop repr ks st1 = (r, st')" by simp
    have "\<forall>v\<in>set (contractNames st1). \<exists>s. v = JString s"
      using body_Inr [OF Inr] Cons.prems(2) by auto
    from Cons.IH [OF l this] show ?thesis .
  qed
qed

section \<open>The script on well-formed and ill-formed documents\<close>

lemmas example_defs =
  example_doc_def example_records_def token_aa_def vault_bb_def token_cc_def example_out_def

lemmas run_defs = run_def init_def body_def py_print_def py_str_def ljust_def

lemma run_example: "run repr_const example_doc = (None, example_out)"
  by (simp add: example_defs run_defs eval_nat_numeral)

subsection \<open>The first record of a name decides its line\<close>

text \<open>
  Claim C1. When the script ends without an exception, a name \<open>n\<close> whose first record
  stands at index \<open>i\<close> of \<^verbatim>\<open>transactions\<close> has its line at the position given by the
  number of distinct names before \<open>i\<close>, and that line carries the address of record
  \<open>i\<close>: the first record of the name, not a later one. The output has as many lines as
  there are distinct names, so no other line belongs to the name.
\<close>

theorem first_record_wins:
  assumes "getitem d ''transactions'' = Inr (JArray ks)"
    and "run repr d = (None, out)"
    and "i < length ks"
    and "name_of (ks ! i) = Inr (JString n)"
    and "\<forall>j<i. name_of (ks ! j) \<noteq> Inr (JString n)"
  shows "\<exists>a. address_of (ks ! i) = Inr a \<and>
             names_before ks i < length out \<and>
             out ! names_before ks i = py_print repr (ljust n 12) a \<and>
             length out = card (set (map name_of ks))"
proof -
  from assms(1,2) obtain st where
    l: "for_loop repr ks init = (None, st)" and out: "out = stdout st"
    by (auto simp: run_array split: prod.splits)
  have "Inr (JString n) \<notin> set (map name_of (take i ks))"
    using assms(3,5) in_map_take [of i ks "Inr (JString n)" name_of] by auto
  from for_loop_printed_at [OF l assms(3,4) this] for_loop_line_count [OF l]
  show ?thesis
    unfolding out by auto
qed

text \<open>On the example, \<open>Token\<close> stands at the indices 0 and 2 with the addresses
  \<open>0xAA\<close> and \<open>0xCC\<close>; its line is the first one and carries \<open>0xAA\<close>.\<close>

theorem first_record_wins_witness:
  "run repr_const example_doc = (None, example_out) \<and>
   name_of (example_records ! 0) = Inr (JString ''Token'') \<and>
   name_of (example_records ! 2) = Inr (JString ''Token'') \<and>
   address_of (example_records ! 2) = Inr (JString ''0xCC'') \<and>
   (\<exists>a. address_of (example_records ! 0) = Inr a \<and>
        names_before example_records 0 < length example_out \<and>
        example_out ! names_before example_records 0 = py_print repr_const (ljust ''Token'' 12) a \<and>
        length example_out = card (set (map name_of example_records))) \<and>
   example_out ! names_before example_records 0 = ''Token        0xAA'' @ [CHR 0x0A]"
proof -
  have t: "getitem example_doc ''transactions'' = Inr (JArray example_records)"
    by (simp add: example_doc_def)
  have n: "name_of (example_records ! 0) = Inr (JString ''Token'')"
    by (simp add: example_defs)
  have i: "0 < length example_records"
    by (simp add: example_defs)
  have f: "\<forall>j<0. name_of (example_records ! j) \<noteq> Inr (JString ''Token'')"
    by simp
  from first_record_wins [OF t run_example i n f] run_example n show ?thesis
    by (simp add: example_defs names_before_def)
qed

subsection \<open>Lines follow the order of first appearance\<close>

lemma names_before_less:
  assumes "i < j" "j \<le> length ks" "name_of (ks ! i) \<notin> set (map name_of (take i ks))"
  shows "names_before ks i < names_before ks j"
proof -
  have sub: "set (map name_of (take i ks)) \<subseteq> set (map name_of (take j ks))"
    using assms(1) set_take_subset_set_take [of i j ks] by auto
  have "name_of (ks ! i) \<in> set (map name_of (take j ks))"
    using assms(1,2) in_map_take [of j ks "name_of (ks ! i)" name_of] by auto
  with sub assms(3) have "set (map name_of (take i ks)) \<subset> set (map name_of (take j ks))"
    by blast
  then show ?thesis
    unfolding names_before_def by (intro psubset_card_mono) auto
qed

text \<open>
  Claim C2. When the script ends without an exception and the name \<open>a\<close> appears for
  the first time at index \<open>i\<close>, the name \<open>b\<close> for the first time at a later index
  \<open>j\<close>, the line of \<open>a\<close> stands before the line of \<open>b\<close> in the output: lines are
  neither sorted nor reordered.
\<close>

theorem lines_in_order_of_first_appearance:
  assumes "getitem d ''transactions'' = Inr (JArray ks)"
    and "run repr d = (None, out)"
    and "i < j" and "j < length ks"
    and "name_of (ks ! i) = Inr (JString a)"
    and "\<forall>m<i. name_of (ks ! m) \<noteq> Inr (JString a)"
    and "name_of (ks ! j) = Inr (JString b)"
    and "\<forall>m<j. name_of (ks ! m) \<noteq> Inr (JString b)"
  shows "names_before ks i < names_before ks j \<and>
         names_before ks j < length out \<and>
         (\<exists>x. address_of (ks ! i) = Inr x \<and>
              out ! names_before ks i = py_print repr (ljust a 12) x) \<and>
         (\<exists>y. address_of (ks ! j) = Inr y \<and>
              out ! names_before ks j = py_print repr (ljust b 12) y)"
proof -
  from assms(1,2) obtain st where
    l: "for_loop repr ks init = (None, st)" and out: "out = stdout st"
    by (auto simp: run_array split: prod.splits)
  have i: "i < length ks"
    using assms(3,4) by simp
  have fa: "Inr (JString a) \<notin> set (map name_of (take i ks))"
    using i assms(6) in_map_take [of i ks "Inr (JString a)" name_of] by auto
  have fb: "Inr (JString b) \<notin> set (map name_of (take j ks))"
    using assms(4,8) in_map_take [of j ks "Inr (JString b)" name_of] by auto
  have "names_before ks i < names_before ks j"
    using names_before_less [of i j ks] assms(3,4,5) fa by simp
  with for_loop_printed_at [OF l i assms(5) fa] for_loop_printed_at [OF l assms(4,7) fb]
  show ?thesis
    unfolding out by auto
qed

text \<open>With \<open>Vault\<close> first, its line is written first.\<close>

lemma run_unsorted: "run repr_const unsorted_doc = (None, unsorted_out)"
  by (simp add: unsorted_doc_def unsorted_records_def unsorted_out_def example_defs run_defs
        eval_nat_numeral)

theorem lines_in_order_of_first_appearance_witness:
  "run repr_const unsorted_doc = (None, unsorted_out) \<and>
   names_before unsorted_records 0 < names_before unsorted_records 1 \<and>
   names_before unsorted_records 1 < length unsorted_out \<and>
   (\<exists>x. address_of (unsorted_records ! 0) = Inr x \<and>
        unsorted_out ! names_before unsorted_records 0 = py_print repr_const (ljust ''Vault'' 12) x) \<and>
   (\<exists>y. address_of (unsorted_records ! 1) = Inr y \<and>
        unsorted_out ! names_before unsorted_records 1 = py_print repr_const (ljust ''Token'' 12) y) \<and>
   unsorted_out ! 0 = ''Vault        0xBB'' @ [CHR 0x0A] \<and>
   unsorted_out ! 1 = ''Token        0xAA'' @ [CHR 0x0A]"
proof -
  have t: "getitem unsorted_doc ''transactions'' = Inr (JArray unsorted_records)"
    by (simp add: unsorted_doc_def)
  have a: "name_of (unsorted_records ! 0) = Inr (JString ''Vault'')"
    by (simp add: unsorted_records_def example_defs)
  have b: "name_of (unsorted_records ! 1) = Inr (JString ''Token'')"
    by (simp add: unsorted_records_def example_defs)
  have fa: "\<forall>m<0. name_of (unsorted_records ! m) \<noteq> Inr (JString ''Vault'')"
    by simp
  have fb: "\<forall>m<1. name_of (unsorted_records ! m) \<noteq> Inr (JString ''Token'')"
    by (simp add: unsorted_records_def example_defs)
  have j: "1 < length unsorted_records"
    by (simp add: unsorted_records_def)
  have z: "(0::nat) < 1"
    by simp
  note c = lines_in_order_of_first_appearance [OF t run_unsorted z j a fa b fb]
  have o: "unsorted_out ! 0 = ''Vault        0xBB'' @ [CHR 0x0A]"
    "unsorted_out ! 1 = ''Token        0xAA'' @ [CHR 0x0A]"
    by (simp_all add: unsorted_out_def)
  from c o run_unsorted show ?thesis
    by blast
qed

subsection \<open>One line for each distinct name\<close>

text \<open>
  Claim C3. A run that ends without an exception has written exactly as many lines as
  there are distinct names among the records of \<^verbatim>\<open>transactions\<close>. The script ends
  without an exception whenever every record has a string under \<^verbatim>\<open>contractName\<close> and
  some value under \<^verbatim>\<open>contractAddress\<close>; with no record at all it writes nothing and
  ends without an exception.
\<close>

theorem one_line_per_name:
  assumes "getitem d ''transactions'' = Inr (JArray ks)"
  shows "(\<forall>out. run repr d = (None, out) \<longrightarrow> length out = card (set (map name_of ks))) \<and>
         ((\<forall>k\<in>set ks. \<exists>n a. name_of k = Inr (JString n) \<and> address_of k = Inr a) \<longrightarrow>
            fst (run repr d) = None) \<and>
         (ks = [] \<longrightarrow> run repr d = (None, []))"
proof (intro conjI allI impI)
  fix out assume "run repr d = (None, out)"
  with assms obtain st where
    l: "for_loop repr ks init = (None, st)" and out: "out = stdout st"
    by (auto simp: run_array split: prod.splits)
  from for_loop_line_count [OF l] show "length out = card (set (map name_of ks))"
    unfolding out .
next
  assume "\<forall>k\<in>set ks. \<exists>n a. name_of k = Inr (JString n) \<and> address_of k = Inr a"
  from for_loop_well_formed [OF this, of repr init] show "fst (run repr d) = None"
    using assms by (auto simp: run_array)
next
  assume "ks = []"
  with assms show "run repr d = (None, [])"
    by (simp add: run_array init_def)
qed

text \<open>The example has three records and two distinct names, and two lines are
  written; the document with no record gives no line.\<close>

theorem one_line_per_name_witness:
  "length example_records = 3 \<and>
   card (set (map name_of example_records)) = 2 \<and>
   run repr_const example_doc = (None, example_out) \<and>
   length example_out = card (set (map name_of example_records)) \<and>
   fst (run repr_const example_doc) = None \<and>
   run repr_const empty_doc = (None, [])"
proof -
  have t: "getitem example_doc ''transactions'' = Inr (JArray example_records)"
    by (simp add: example_doc_def)
  have e: "getitem empty_doc ''transactions'' = Inr (JArray [])"
    by (simp add: empty_doc_def)
  have w: "\<forall>k\<in>set example_records. \<exists>n a. name_of k = Inr (JString n) \<and> address_of k = Inr a"
    by (simp add: example_defs)
  have c: "card (set (map name_of example_records)) = 2"
    by (simp add: example_defs card_insert_if)
  from one_line_per_name [OF t, of repr_const] one_line_per_name [OF e, of repr_const]
    run_example w c
  show ?thesis
    by (simp add: example_records_def)
qed

subsection \<open>The format of a line\<close>

lemma ljust_length: "length (ljust n w) = max w (length n)"
  by (simp add: ljust_def)

text \<open>
  Claim C4. Every line the script writes, also in a run that an exception ends, is the
  line of a record with a string name \<open>n\<close> and an address \<open>a\<close>: the name, then spaces
  up to twelve characters when the name is shorter, then one space, the address and a
  newline. The name field has the length of the name or twelve, whichever is larger, so a
  name of twelve characters or more is written whole and unpadded. A string address is
  written as it is.
\<close>

theorem line_format:
  assumes "getitem d ''transactions'' = Inr (JArray ks)"
    and "run repr d = (r, out)"
    and "l \<in> set out"
  shows "\<exists>k\<in>set ks. \<exists>n a. name_of k = Inr (JString n) \<and> address_of k = Inr a \<and>
           l = n @ replicate (12 - length n) CHR '' '' @ '' '' @ py_str repr a @ [CHR 0x0A] \<and>
           length (n @ replicate (12 - length n) CHR '' '') = max 12 (length n) \<and>
           (12 \<le> length n \<longrightarrow> n @ replicate (12 - length n) CHR '' '' = n) \<and>
           (\<forall>s. a = JString s \<longrightarrow> py_str repr a = s)"
proof -
  from assms(1,2) obtain st where
    l: "for_loop repr ks init = (r, st)" and out: "out = stdout st"
    by (auto simp: run_array split: prod.splits)
  from for_loop_lines [OF l, of l] assms(3) obtain k n a where
    k: "k \<in> set ks" "name_of k = Inr (JString n)" "address_of k = Inr a"
    and line: "l = py_print repr (ljust n 12) a"
    unfolding out by (auto simp: init_def)
  have "l = n @ replicate (12 - length n) CHR '' '' @ '' '' @ py_str repr a @ [CHR 0x0A]"
    using line by (simp add: py_print_def ljust_def)
  moreover have "length (n @ replicate (12 - length n) CHR '' '') = max 12 (length n)"
    using ljust_length [of n 12] by (simp add: ljust_def)
  moreover have "12 \<le> length n \<longrightarrow> n @ replicate (12 - length n) CHR '' '' = n"
    by simp
  moreover have "\<forall>s. a = JString s \<longrightarrow> py_str repr a = s"
    by (simp add: py_str_def)
  ultimately show ?thesis
    using k by blast
qed

text \<open>A name of sixteen characters is followed by the separating space only; a name
  of five characters is padded with seven spaces.\<close>

lemma run_factory:
  "run repr_const factory_doc = (None, [''BetMakersFactory 0xDD'' @ [CHR 0x0A]])"
  by (simp add: factory_doc_def factory_dd_def run_defs)

theorem line_format_witness:
  "run repr_const factory_doc = (None, [''BetMakersFactory 0xDD'' @ [CHR 0x0A]]) \<and>
   (\<exists>k\<in>set [factory_dd]. \<exists>n a. name_of k = Inr (JString n) \<and> address_of k = Inr a \<and>
      ''BetMakersFactory 0xDD'' @ [CHR 0x0A] =
        n @ replicate (12 - length n) CHR '' '' @ '' '' @ py_str repr_const a @ [CHR 0x0A] \<and>
      length (n @ replicate (12 - length n) CHR '' '') = max 12 (length n) \<and>
      (12 \<le> length n \<longrightarrow> n @ replicate (12 - length n) CHR '' '' = n) \<and>
      (\<forall>s. a = JString s \<longrightarrow> py_str repr_const a = s)) \<and>
   run repr_const example_doc = (None, example_out) \<and>
   (\<exists>k\<in>set example_records. \<exists>n a. name_of k = Inr (JString n) \<and> address_of k = Inr a \<and>
      ''Token        0xAA'' @ [CHR 0x0A] =
        n @ replicate (12 - length n) CHR '' '' @ '' '' @ py_str repr_const a @ [CHR 0x0A] \<and>
      length (n @ replicate (12 - length n) CHR '' '') = max 12 (length n) \<and>
      (12 \<le> length n \<longrightarrow> n @ replicate (12 - length n) CHR '' '' = n) \<and>
      (\<forall>s. a = JString s \<longrightarrow> py_str repr_const a = s))"
proof -
  have t: "getitem factory_doc ''transactions'' = Inr (JArray [factory_dd])"
    by (simp add: factory_doc_def)
  have m: "''BetMakersFactory 0xDD'' @ [CHR 0x0A] \<in> set [''BetMakersFactory 0xDD'' @ [CHR 0x0A]]"
    by simp
  have t': "getitem example_doc ''transactions'' = Inr (JArray example_records)"
    by (simp add: example_doc_def)
  have m': "''Token        0xAA'' @ [CHR 0x0A] \<in> set example_out"
    by (simp add: example_out_def)
  from line_format [OF t run_factory m] line_format [OF t' run_example m']
    run_factory run_example
  show ?thesis
    by blast
qed

subsection \<open>A missing file\<close>

text \<open>
  Claim C6. When there is no file at the path \<open>P\<close>, the script ends with
  \<^verbatim>\<open>FileNotFoundError\<close> and has written nothing, whatever the parser would return:
  neither the parser nor the loop is reached.
\<close>

theorem missing_file:
  assumes "fs P = None"
  shows "script json_load repr fs = (Some FileNotFoundError, [])"
  using assms by (simp add: script_def py_open_def)

text \<open>The empty file system, with a parser that would return the example.\<close>

theorem missing_file_witness:
  "script (\<lambda>text. Some example_doc) repr_const Map.empty = (Some FileNotFoundError, [])"
  using missing_file [of Map.empty "\<lambda>text. Some example_doc" repr_const] by simp

subsection \<open>Only names and addresses matter\<close>

lemma body_cong:
  "name_of k = name_of k' \<Longrightarrow> address_of k = address_of k' \<Longrightarrow> body repr k st = body repr k' st"
  by (simp add: body_def split: sum.splits)

lemma for_loop_cong:
  "list_all2 (\<lambda>k k'. name_of k = name_of k' \<and> address_of k = address_of k') ks ks' \<Longrightarrow>
     for_loop repr ks st = for_loop repr ks' st"
proof (induction ks ks' arbitrary: st rule: list_all2_induct)
  case Nil
  then show ?case by simp
next
  case (Cons k ks k' ks')
  then have "body repr k st = body repr k' st"
    using body_cong by blast
  with Cons.IH show ?case
    by (simp split: sum.splits)
qed

text \<open>
  Claim C8. Two documents whose \<^verbatim>\<open>transactions\<close> lists have the same length and
  give, at every index, the same result for the lookup of \<^verbatim>\<open>contractName\<close> and for
  the lookup of \<^verbatim>\<open>contractAddress\<close> make the script end the same way with the same
  output, whatever other keys the records or the documents have.
\<close>

theorem output_depends_on_names_and_addresses:
  assumes "getitem d1 ''transactions'' = Inr (JArray ks1)"
    and "getitem d2 ''transactions'' = Inr (JArray ks2)"
    and "length ks1 = length ks2"
    and "\<forall>i<length ks1. name_of (ks1 ! i) = name_of (ks2 ! i) \<and>
                          address_of (ks1 ! i) = address_of (ks2 ! i)"
  shows "run repr d1 = run repr d2"
proof -
  have "list_all2 (\<lambda>k k'. name_of k = name_of k' \<and> address_of k = address_of k') ks1 ks2"
    using assms(3,4) by (simp add: list_all2_conv_all_nth)
  from for_loop_cong [OF this] show ?thesis
    using assms(1,2) by (simp add: run_array)
qed

text \<open>The example with further keys gives the output of the example.\<close>

theorem output_depends_on_names_and_addresses_witness:
  "run repr_const extra_doc = run repr_const example_doc \<and>
   run repr_const extra_doc = (None, example_out) \<and>
   extra_doc \<noteq> example_doc"
proof -
  have t1: "getitem extra_doc ''transactions'' = Inr (JArray extra_records)"
    by (simp add: extra_doc_def)
  have t2: "getitem example_doc ''transactions'' = Inr (JArray example_records)"
    by (simp add: example_doc_def)
  have len: "length extra_records = length example_records"
    by (simp add: extra_records_def example_records_def)
  have agree: "\<forall>i<length extra_records. name_of (extra_records ! i) = name_of (example_records ! i) \<and>
                          address_of (extra_records ! i) = address_of (example_records ! i)"
    by (simp add: extra_records_def example_defs token_aa_extra_def All_less_Suc)
  have neq: "extra_doc \<noteq> example_doc"
    by (simp add: extra_doc_def example_doc_def)
  from output_depends_on_names_and_addresses [OF t1 t2 len agree, of repr_const] run_example neq
  show ?thesis
    by simp
qed

subsection \<open>An exception in the middle of the loop\<close>

lemma for_loop_stops:
  assumes "i < length ks"
    and "for_loop repr (take i ks) st0 = (None, st)"
    and "body repr (ks ! i) st = Inl e"
  shows "for_loop repr ks st0 = (Some e, st)"
proof -
  have "ks = take i ks @ ks ! i # drop (Suc i) ks"
    using assms(1) by (simp add: id_take_nth_drop)
  then have "for_loop repr ks st0 = for_loop repr (take i ks @ ks ! i # drop (Suc i) ks) st0"
    by simp
  also have "\<dots> = (Some e, st)"
    unfolding for_loop_append using assms(2,3) by simp
  finally show ?thesis .
qed

lemma for_loop_take_take:
  assumes "for_loop repr (take i ks) st0 = (None, st)" and "j \<le> i"
  shows "\<exists>st1. for_loop repr (take j ks) st0 = (None, st1) \<and>
               prefix (stdout st1) (stdout st) \<and>
               prefix (contractNames st1) (contractNames st)"
proof -
  from for_loop_take [OF assms(1), of j] obtain st1 where
    a: "for_loop repr (take j (take i ks)) st0 = (None, st1)" and
    b: "for_loop repr (drop j (take i ks)) st1 = (None, st)"
    by blast
  have "take j (take i ks) = take j ks"
    using assms(2) by (simp add: min_absorb1)
  with a for_loop_grows [OF b] show ?thesis
    by auto
qed

text \<open>
  Claim C7. When the records before index \<open>i\<close> are processed without an exception,
  reaching the state \<open>st\<close>, and record \<open>i\<close> raises \<open>e\<close>, the script ends with \<open>e\<close>
  and its output is the output of \<open>st\<close>: exactly what the script writes for the document
  cut before record \<open>i\<close>, on which it ends without an exception. Nothing is written
  for record \<open>i\<close> or a later one, and the output after any shorter prefix is a prefix of
  the final output, so no line is taken back.
\<close>

theorem output_before_failure:
  assumes "getitem d ''transactions'' = Inr (JArray ks)"
    and "i < length ks"
    and "for_loop repr (take i ks) init = (None, st)"
    and "body repr (ks ! i) st = Inl e"
    and "getitem d' ''transactions'' = Inr (JArray (take i ks))"
    and "j \<le> i"
  shows "run repr d = (Some e, stdout st) \<and>
         run repr d' = (None, stdout st) \<and>
         fst (for_loop repr (take j ks) init) = None \<and>
         prefix (stdout (snd (for_loop repr (take j ks) init))) (stdout st)"
proof -
  from for_loop_stops [OF assms(2,3,4)] have "run repr d = (Some e, stdout st)"
    using assms(1) by (simp add: run_array)
  moreover have "run repr d' = (None, stdout st)"
    using assms(3,5) by (simp add: run_array)
  moreover from for_loop_take_take [OF assms(3,6)]
  have "fst (for_loop repr (take j ks) init) = None \<and>
        prefix (stdout (snd (for_loop repr (take j ks) init))) (stdout st)"
    by auto
  ultimately show ?thesis by simp
qed

text \<open>The third of four records has a new name and no address: the two lines of the
  records before it stay, and the fourth record gets no line.\<close>

lemma for_loop_failing_prefix:
  "for_loop repr_const (take 2 failing_records) init = (None, token_vault_state)"
  by (simp add: failing_records_def token_vault_state_def example_defs run_defs eval_nat_numeral)

theorem output_before_failure_witness:
  "run repr_const failing_doc = (Some (KeyError ''contractAddress''), stdout token_vault_state) \<and>
   stdout token_vault_state = [''Token        0xAA'' @ [CHR 0x0A], ''Vault        0xBB'' @ [CHR 0x0A]] \<and>
   run repr_const pair_doc = (None, stdout token_vault_state) \<and>
   fst (for_loop repr_const (take 1 failing_records) init) = None \<and>
   prefix (stdout (snd (for_loop repr_const (take 1 failing_records) init))) (stdout token_vault_state)"
proof -
  have t: "getitem failing_doc ''transactions'' = Inr (JArray failing_records)"
    by (simp add: failing_doc_def)
  have i: "2 < length failing_records"
    by (simp add: failing_records_def)
  have b: "body repr_const (failing_records ! 2) token_vault_state = Inl (KeyError ''contractAddress'')"
    by (simp add: failing_records_def token_vault_state_def pool_bare_def body_def ljust_def)
  have t': "getitem pair_doc ''transactions'' = Inr (JArray (take 2 failing_records))"
    by (simp add: pair_doc_def failing_records_def eval_nat_numeral)
  have j: "(1::nat) \<le> 2"
    by simp
  have o: "stdout token_vault_state = [''Token        0xAA'' @ [CHR 0x0A], ''Vault        0xBB'' @ [CHR 0x0A]]"
    by (simp add: token_vault_state_def example_out_def)
  from output_before_failure [OF t i for_loop_failing_prefix b t' j] o show ?thesis
    by simp
qed

subsection \<open>The list of names seen\<close>

text \<open>
  Claim C9. \<^verbatim>\<open>contractNames\<close> is empty at the start. After any number \<open>j\<close> of
  records processed without an exception it holds the distinct names of these \<open>j\<close>
  records in the order of their first appearance, each once; and the list after \<open>m \<le> j\<close>
  records is a prefix of the list after \<open>j\<close> records, so the list only grows at its end.
\<close>

theorem seen_names_grow:
  assumes "for_loop repr ks init = (None, st)"
    and "m \<le> j" and "j \<le> length ks"
  shows "contractNames init = [] \<and>
         fst (for_loop repr (take j ks) init) = None \<and>
         map Inr (contractNames (snd (for_loop repr (take j ks) init)))
           = first_appearance (map name_of (take j ks)) \<and>
         set (map Inr (contractNames (snd (for_loop repr (take j ks) init))))
           = set (map name_of (take j ks)) \<and>
         distinct (contractNames (snd (for_loop repr (take j ks) init))) \<and>
         prefix (contractNames (snd (for_loop repr (take m ks) init)))
                (contractNames (snd (for_loop repr (take j ks) init)))"
proof -
  from for_loop_take [OF assms(1), of j] obtain sj where
    lj: "for_loop repr (take j ks) init = (None, sj)"
    by blast
  from for_loop_invariant [OF lj] have
    n: "map Inr (contractNames sj) = first_appearance (map name_of (take j ks))"
    by simp
  then have s: "set (map Inr (contractNames sj)) = set (map name_of (take j ks))"
    by (simp add: set_first_appearance)
  have "distinct (map Inr (contractNames sj) :: (py_error + json) list)"
    unfolding n by (rule distinct_first_appearance)
  then have dist: "distinct (contractNames sj)"
    by (simp add: distinct_map)
  from for_loop_take_take [OF lj assms(2)] obtain sm where
    "for_loop repr (take m ks) init = (None, sm)" "prefix (contractNames sm) (contractNames sj)"
    by blast
  with lj n s dist show ?thesis
    by (simp add: init_def)
qed

text \<open>On the example the list is \<open>Token\<close> after one record and \<open>Token\<close>,
  \<open>Vault\<close> after all three.\<close>

lemma for_loop_example:
  "for_loop repr_const example_records init = (None, token_vault_state)"
  by (simp add: token_vault_state_def example_defs run_defs eval_nat_numeral)

theorem seen_names_grow_witness:
  "contractNames init = [] \<and>
   fst (for_loop repr_const (take 3 example_records) init) = None \<and>
   map Inr (contractNames (snd (for_loop repr_const (take 3 example_records) init)))
     = first_appearance (map name_of (take 3 example_records)) \<and>
   set (map Inr (contractNames (snd (for_loop repr_const (take 3 example_records) init))))
     = set (map name_of (take 3 example_records)) \<and>
   distinct (contractNames (snd (for_loop repr_const (take 3 example_records) init))) \<and>
   prefix (contractNames (snd (for_loop repr_const (take 1 example_records) init)))
          (contractNames (snd (for_loop repr_const (take 3 example_records) init))) \<and>
   contractNames (snd (for_loop repr_const (take 1 example_records) init)) = [JString ''Token''] \<and>
   contractNames (snd (for_loop repr_const (take 3 example_records) init))
     = [JString ''Token'', JString ''Vault'']"
proof -
  have mj: "(1::nat) \<le> 3"
    by simp
  have j: "3 \<le> length example_records"
    by (simp add: example_records_def)
  have a: "contractNames (snd (for_loop repr_const (take 1 example_records) init)) = [JString ''Token'']"
    by (simp add: example_defs run_defs)
  have b: "contractNames (snd (for_loop repr_const (take 3 example_records) init))
     = [JString ''Token'', JString ''Vault'']"
    using for_loop_example by (simp add: example_records_def token_vault_state_def)
  from seen_names_grow [OF for_loop_example mj j] a b show ?thesis
    by blast
qed

subsection \<open>A record that repeats a name\<close>

text \<open>
  Claim C10. A record whose name is the name of an earlier record has no effect: the
  script ends the same way and writes the same output as on the document without that
  record, and when the loop reaches the record its body returns the state unchanged.
  The statement does not mention the \<^verbatim>\<open>contractAddress\<close> of the record: the record
  is skipped before the address is looked up, so a missing address raises nothing there
  and the records after it are processed.
\<close>

theorem repeated_name_skipped:
  assumes "getitem d ''transactions'' = Inr (JArray ks)"
    and "getitem d' ''transactions'' = Inr (JArray (take i ks @ drop (Suc i) ks))"
    and "i < length ks" and "j < i"
    and "name_of (ks ! i) = Inr v"
    and "name_of (ks ! j) = Inr v"
  shows "run repr d = run repr d' \<and>
         (\<forall>st. for_loop repr (take i ks) init = (None, st) \<longrightarrow>
               body repr (ks ! i) st = Inr st)"
proof -
  have skip: "body repr (ks ! i) st = Inr st"
    if l: "for_loop repr (take i ks) init = (None, st)" for st
  proof -
    have "Inr v \<in> set (map name_of (take i ks))"
      using assms(3,4,6) in_map_take [of i ks "Inr v" name_of] by auto
    then have "v \<in> set (contractNames st)"
      using for_loop_invariant [OF l] for_loop_seen by blast
    from body_skip [OF assms(5) this] show ?thesis .
  qed
  have ks: "ks = take i ks @ ks ! i # drop (Suc i) ks"
    using assms(3) by (simp add: id_take_nth_drop)
  have "for_loop repr (take i ks @ ks ! i # drop (Suc i) ks) init
      = for_loop repr (take i ks @ drop (Suc i) ks) init"
  proof (cases "for_loop repr (take i ks) init")
    case (Pair r st)
    show ?thesis
    proof (cases r)
      case (Some e)
      with Pair show ?thesis by (simp add: for_loop_append)
    next
      case None
      with Pair have l: "for_loop repr (take i ks) init = (None, st)" by simp
      with skip [OF l] show ?thesis by (simp add: for_loop_append)
    qed
  qed
  with ks have "for_loop repr ks init = for_loop repr (take i ks @ drop (Suc i) ks) init"
    by simp
  then have "run repr d = run repr d'"
    using assms(1,2) by (simp add: run_array)
  with skip show ?thesis
    by blast
qed

text \<open>The second record repeats \<open>Token\<close> and has no address; the output is that of
  the other two records.\<close>

theorem repeated_name_skipped_witness:
  "lacks (repeat_records ! 1) ''contractAddress'' \<and>
   run repr_const repeat_doc = run repr_const pair_doc \<and>
   run repr_const repeat_doc = (None, example_out) \<and>
   for_loop repr_const (take 1 repeat_records) init
     = (None, \<lparr>contractNames = [JString ''Token''],
                 stdout = [''Token        0xAA'' @ [CHR 0x0A]]\<rparr>) \<and>
   body repr_const (repeat_records ! 1)
       \<lparr>contractNames = [JString ''Token''], stdout = [''Token        0xAA'' @ [CHR 0x0A]]\<rparr>
     = Inr \<lparr>contractNames = [JString ''Token''],
             stdout = [''Token        0xAA'' @ [CHR 0x0A]]\<rparr>"
proof -
  have t: "getitem repeat_doc ''transactions'' = Inr (JArray repeat_records)"
    by (simp add: repeat_doc_def)
  have t': "getitem pair_doc ''transactions''
            = Inr (JArray (take 1 repeat_records @ drop (Suc 1) repeat_records))"
    by (simp add: pair_doc_def repeat_records_def)
  have i: "1 < length repeat_records"
    by (simp add: repeat_records_def)
  have j: "(0::nat) < 1"
    by simp
  have ni: "name_of (repeat_records ! 1) = Inr (JString ''Token'')"
    by (simp add: repeat_records_def token_bare_def)
  have nj: "name_of (repeat_records ! 0) = Inr (JString ''Token'')"
    by (simp add: repeat_records_def token_aa_def)
  have la: "lacks (repeat_records ! 1) ''contractAddress''"
    by (simp add: lacks_def repeat_records_def token_bare_def)
  have r: "run repr_const pair_doc = (None, example_out)"
    by (simp add: pair_doc_def example_defs run_defs eval_nat_numeral)
  have l: "for_loop repr_const (take 1 repeat_records) init
     = (None, \<lparr>contractNames = [JString ''Token''],
                 stdout = [''Token        0xAA'' @ [CHR 0x0A]]\<rparr>)"
    by (simp add: repeat_records_def example_defs run_defs eval_nat_numeral)
  from repeated_name_skipped [OF t t' i j ni nj, of repr_const] la r l show ?thesis
    by simp
qed

subsection \<open>Missing keys\<close>

text \<open>
  A record is called shaped when it is a dict whose \<^verbatim>\<open>contractName\<close>, if there is
  one, is a string. On shaped records the only exception of the loop body is
  \<^verbatim>\<open>KeyError\<close>.
\<close>

lemma shaped_address:
  assumes "(\<exists>n. name_of k = Inr (JString n)) \<or> lacks k ''contractName''"
  shows "(\<exists>a. address_of k = Inr a) \<or> lacks k ''contractAddress''"
  using assms by (cases k) (auto simp: lacks_def split: option.splits)

lemma body_shaped_ok:
  assumes "(\<exists>n. name_of k = Inr (JString n)) \<or> lacks k ''contractName''"
  shows "(\<exists>st'. body repr k st = Inr st') \<longleftrightarrow>
           \<not> lacks k ''contractName'' \<and>
           (name_of k \<in> set (map Inr (contractNames st)) \<or> \<not> lacks k ''contractAddress'')"
  using assms shaped_address [OF assms]
  by (auto simp: body_def lacks_def split: sum.splits)

lemma body_shaped_error:
  assumes "(\<exists>n. name_of k = Inr (JString n)) \<or> lacks k ''contractName''"
    and "body repr k st = Inl e"
  shows "\<exists>key. e = KeyError key"
  using assms shaped_address [OF assms(1)]
  by (auto simp: body_def lacks_def split: sum.splits if_splits)

lemma for_loop_shaped_error:
  "\<forall>k\<in>set ks. (\<exists>n. name_of k = Inr (JString n)) \<or> lacks k ''contractName'' \<Longrightarrow>
     for_loop repr ks st = (Some e, st') \<Longrightarrow> \<exists>key. e = KeyError key"
proof (induction ks arbitrary: st)
  case Nil
  then show ?case by simp
next
  case (Cons k ks)
  have k: "(\<exists>n. name_of k = Inr (JString n)) \<or> lacks k ''contractName''"
    using Cons.prems(1) by simp
  have ks: "\<forall>k\<in>set ks. (\<exists>n. name_of k = Inr (JString n)) \<or> lacks k ''contractName''"
    using Cons.prems(1) by simp
  show ?case
  proof (cases "body repr k st")
    case (Inl e')
    with Cons.prems(2) have "e' = e" by simp
    with body_shaped_error [OF k Inl] show ?thesis by simp
  next
    case (Inr st1)
    with Cons.prems(2) have "for_loop repr ks st1 = (Some e, st')" by simp
    from Cons.IH [OF ks this] show ?thesis .
  qed
qed

lemma for_loop_shaped_ok:
  "\<forall>k\<in>set ks. (\<exists>n. name_of k = Inr (JString n)) \<or> lacks k ''contractName'' \<Longrightarrow>
     fst (for_loop repr ks init) = None \<longleftrightarrow>
       (\<forall>i<length ks. \<not> lacks (ks ! i) ''contractName'' \<and>
           (name_of (ks ! i) \<in> set (map name_of (take i ks)) \<or>
            \<not> lacks (ks ! i) ''contractAddress''))"
proof (induction ks rule: rev_induct)
  case Nil
  then show ?case by simp
next
  case (snoc k ks)
  let ?Q = "\<lambda>xs i. \<not> lacks (xs ! i) ''contractName'' \<and>
           (name_of (xs ! i) \<in> set (map name_of (take i xs)) \<or>
            \<not> lacks (xs ! i) ''contractAddress'')"
  have k: "(\<exists>n. name_of k = Inr (JString n)) \<or> lacks k ''contractName''"
    using snoc.prems by simp
  have "\<forall>k\<in>set ks. (\<exists>n. name_of k = Inr (JString n)) \<or> lacks k ''contractName''"
    using snoc.prems by simp
  note ih = snoc.IH [OF this]
  have old: "\<And>i. i < length ks \<Longrightarrow> ?Q (ks @ [k]) i = ?Q ks i"
    by (simp add: nth_append)
  have last: "?Q (ks @ [k]) (length ks) \<longleftrightarrow>
      \<not> lacks k ''contractName'' \<and>
      (name_of k \<in> set (map name_of ks) \<or> \<not> lacks k ''contractAddress'')"
    by simp
  have split: "(\<forall>i<length (ks @ [k]). ?Q (ks @ [k]) i) \<longleftrightarrow>
      (\<forall>i<length ks. ?Q ks i) \<and> ?Q (ks @ [k]) (length ks)"
    using old by (auto simp: less_Suc_eq)
  show ?case
  proof (cases "for_loop repr ks init")
    case (Pair r st0)
    show ?thesis
    proof (cases r)
      case (Some e)
      with Pair have "fst (for_loop repr (ks @ [k]) init) \<noteq> None"
        by (simp add: for_loop_append)
      moreover from Some Pair ih have "\<not> (\<forall>i<length ks. ?Q ks i)"
        by simp
      ultimately show ?thesis
        unfolding split by blast
    next
      case None
      with Pair have l: "for_loop repr ks init = (None, st0)" by simp
      with ih have all: "\<forall>i<length ks. ?Q ks i"
        by simp
      have seen: "set (map Inr (contractNames st0)) = set (map name_of ks)"
        using for_loop_invariant [OF l] by (simp add: set_first_appearance)
      have "fst (for_loop repr (ks @ [k]) init) = None \<longleftrightarrow> (\<exists>st'. body repr k st0 = Inr st')"
        using l by (auto simp: for_loop_append split: sum.splits)
      also have "\<dots> \<longleftrightarrow> \<not> lacks k ''contractName'' \<and>
           (name_of k \<in> set (map name_of ks) \<or> \<not> lacks k ''contractAddress'')"
        unfolding body_shaped_ok [OF k] seen ..
      finally show ?thesis
        unfolding split last using all by blast
    qed
  qed
qed

text \<open>
  Claim C5, amended. Let the document be a dict whose \<^verbatim>\<open>transactions\<close>, if there is
  one, is a list of shaped records. The script ends with a \<^verbatim>\<open>KeyError\<close> exactly when
  \<^verbatim>\<open>transactions\<close> is missing, or a record has no \<^verbatim>\<open>contractName\<close>, or a record
  whose name no earlier record has is without \<^verbatim>\<open>contractAddress\<close>. Otherwise it ends
  without an exception; in particular when every record has both keys. A record that
  repeats an earlier name is never asked for its address.
\<close>

theorem key_error_iff:
  assumes "getitem d ''transactions'' = Inr (JArray ks) \<or> lacks d ''transactions''"
    and "\<forall>k\<in>set ks. (\<exists>n. name_of k = Inr (JString n)) \<or> lacks k ''contractName''"
  shows "((\<exists>key. fst (run repr d) = Some (KeyError key)) \<longleftrightarrow>
            lacks d ''transactions'' \<or>
            (\<exists>i<length ks. lacks (ks ! i) ''contractName'' \<or>
                lacks (ks ! i) ''contractAddress'' \<and>
                (\<forall>j<i. name_of (ks ! j) \<noteq> name_of (ks ! i)))) \<and>
         (fst (run repr d) = None \<or> (\<exists>key. fst (run repr d) = Some (KeyError key))) \<and>
         (\<not> lacks d ''transactions'' \<and>
          (\<forall>k\<in>set ks. \<not> lacks k ''contractName'' \<and> \<not> lacks k ''contractAddress'') \<longrightarrow>
            fst (run repr d) = None)"
proof (cases "lacks d ''transactions''")
  case True
  then have "run repr d = (Some (KeyError ''transactions''), [])"
    by (simp add: run_def lacks_def)
  with True show ?thesis by simp
next
  case False
  with assms(1) have t: "getitem d ''transactions'' = Inr (JArray ks)"
    by simp
  have r: "fst (run repr d) = fst (for_loop repr ks init)"
    using t by (simp add: run_array split: prod.splits)
  have first: "\<And>i. i < length ks \<Longrightarrow>
      name_of (ks ! i) \<in> set (map name_of (take i ks)) \<longleftrightarrow>
      \<not> (\<forall>j<i. name_of (ks ! j) \<noteq> name_of (ks ! i))"
    using in_map_take [of _ ks _ name_of] by auto
  have ok: "fst (run repr d) = None \<longleftrightarrow>
      \<not> (\<exists>i<length ks. lacks (ks ! i) ''contractName'' \<or>
                lacks (ks ! i) ''contractAddress'' \<and>
                (\<forall>j<i. name_of (ks ! j) \<noteq> name_of (ks ! i)))"
    unfolding r for_loop_shaped_ok [OF assms(2)] using first by blast
  have kinds: "fst (run repr d) = None \<or> (\<exists>key. fst (run repr d) = Some (KeyError key))"
  proof (cases "for_loop repr ks init")
    case (Pair e st)
    show ?thesis
    proof (cases e)
      case None
      with Pair r show ?thesis by simp
    next
      case (Some x)
      with Pair for_loop_shaped_error [OF assms(2), of repr init x st] r show ?thesis
        by simp
    qed
  qed
  have iff: "(\<exists>key. fst (run repr d) = Some (KeyError key)) \<longleftrightarrow> fst (run repr d) \<noteq> None"
    using kinds by auto
  have both: "(\<forall>k\<in>set ks. \<not> lacks k ''contractName'' \<and> \<not> lacks k ''contractAddress'') \<longrightarrow>
      fst (run repr d) = None"
    unfolding ok by auto
  from False ok kinds iff both show ?thesis
    by blast
qed


text \<open>The claim as stated asks for a \<^verbatim>\<open>KeyError\<close> whenever some record has no
  \<^verbatim>\<open>contractAddress\<close>. The second record below has none, and the script ends without
  an exception.\<close>

lemma run_repeat: "run repr_const repeat_doc = (None, example_out)"
  by (simp add: repeat_doc_def repeat_records_def token_bare_def example_defs run_defs
        eval_nat_numeral)

theorem record_without_address_counterexample:
  "getitem repeat_doc ''transactions'' = Inr (JArray repeat_records) \<and>
   repeat_records ! 1 = token_bare \<and>
   lacks token_bare ''contractAddress'' \<and>
   run repr_const repeat_doc = (None, example_out)"
  using run_repeat by (simp add: repeat_doc_def repeat_records_def token_bare_def lacks_def)

text \<open>The four cases on the example documents: a new name without address, a repeated
  name without address, no \<^verbatim>\<open>transactions\<close>, and all keys present.\<close>

theorem key_error_iff_witness:
  "lacks (failing_records ! 2) ''contractAddress'' \<and>
   (\<exists>key. fst (run repr_const failing_doc) = Some (KeyError key)) \<and>
   lacks (repeat_records ! 1) ''contractAddress'' \<and>
   name_of (repeat_records ! 0) = name_of (repeat_records ! 1) \<and>
   fst (run repr_const repeat_doc) = None \<and>
   lacks chain_doc ''transactions'' \<and>
   (\<exists>key. fst (run repr_const chain_doc) = Some (KeyError key)) \<and>
   fst (run repr_const example_doc) = None"
proof -
  have t1: "getitem failing_doc ''transactions'' = Inr (JArray failing_records)
            \<or> lacks failing_doc ''transactions''"
    by (simp add: failing_doc_def)
  have s1: "\<forall>k\<in>set failing_records.
              (\<exists>n. name_of k = Inr (JString n)) \<or> lacks k ''contractName''"
    by (simp add: failing_records_def pool_bare_def oracle_ee_def example_defs)
  have l1: "lacks (failing_records ! 2) ''contractAddress''"
    by (simp add: failing_records_def pool_bare_def lacks_def)
  have f1: "\<forall>j<2. name_of (failing_records ! j) \<noteq> name_of (failing_records ! 2)"
    by (simp add: failing_records_def pool_bare_def example_defs All_less_Suc eval_nat_numeral)
  have "\<exists>i<length failing_records. lacks (failing_records ! i) ''contractName'' \<or>
          lacks (failing_records ! i) ''contractAddress'' \<and>
          (\<forall>j<i. name_of (failing_records ! j) \<noteq> name_of (failing_records ! i))"
    using l1 f1 by (intro exI [of _ 2]) (simp add: failing_records_def)
  with key_error_iff [OF t1 s1, of repr_const]
  have a: "\<exists>key. fst (run repr_const failing_doc) = Some (KeyError key)"
    by blast
  have t2: "getitem repeat_doc ''transactions'' = Inr (JArray repeat_records)
            \<or> lacks repeat_doc ''transactions''"
    by (simp add: repeat_doc_def)
  have s2: "\<forall>k\<in>set repeat_records.
              (\<exists>n. name_of k = Inr (JString n)) \<or> lacks k ''contractName''"
    by (simp add: repeat_records_def token_bare_def example_defs)
  have l2: "lacks (repeat_records ! 1) ''contractAddress''"
    by (simp add: repeat_records_def token_bare_def lacks_def)
  have n2: "name_of (repeat_records ! 0) = name_of (repeat_records ! 1)"
    by (simp add: repeat_records_def token_bare_def example_defs)
  have "\<not> (lacks repeat_doc ''transactions'' \<or>
          (\<exists>i<length repeat_records. lacks (repeat_records ! i) ''contractName'' \<or>
            lacks (repeat_records ! i) ''contractAddress'' \<and>
            (\<forall>j<i. name_of (repeat_records ! j) \<noteq> name_of (repeat_records ! i))))"
    by (simp add: repeat_doc_def repeat_records_def token_bare_def example_defs lacks_def
          All_less_Suc Ex_less_Suc)
  with key_error_iff [OF t2 s2, of repr_const]
  have b: "fst (run repr_const repeat_doc) = None"
    by blast
  have l3: "lacks chain_doc ''transactions''"
    by (simp add: chain_doc_def lacks_def)
  then have t3: "getitem chain_doc ''transactions'' = Inr (JArray []) \<or> lacks chain_doc ''transactions''"
    by simp
  have s3: "\<forall>k\<in>set []. (\<exists>n. name_of k = Inr (JString n)) \<or> lacks k ''contractName''"
    by simp
  from key_error_iff [OF t3 s3, of repr_const] l3
  have c: "\<exists>key. fst (run repr_const chain_doc) = Some (KeyError key)"
    by blast
  have t4: "getitem example_doc ''transactions'' = Inr (JArray example_records)
            \<or> lacks example_doc ''transactions''"
    by (simp add: example_doc_def)
  have s4: "\<forall>k\<in>set example_records.
              (\<exists>n. name_of k = Inr (JString n)) \<or> lacks k ''contractName''"
    by (simp add: example_defs)
  have "\<not> lacks example_doc ''transactions'' \<and>
        (\<forall>k\<in>set example_records. \<not> lacks k ''contractName'' \<and> \<not> lacks k ''contractAddress'')"
    by (simp add: example_defs lacks_def)
  with key_error_iff [OF t4 s4, of repr_const]
  have d: "fst (run repr_const example_doc) = None"
    by blast
  from l1 a l2 n2 b l3 c d show ?thesis
    by blast
qed

end
